theory Spec2Isabelle
  imports Main "HOL-Library.Word"
begin

section \<open>Image pipeline of deck: preload, upload dispatch, cleanup (preload.go)\<close>

text \<open>
  The three functions of \<^verbatim>\<open>preload.go\<close> are embedded here:
  \<^verbatim>\<open>preloadCurrentImages\<close>, \<^verbatim>\<open>startUploadingImages\<close> and
  \<^verbatim>\<open>cleanupUploadedImages\<close>. Sequential parts (collecting, selecting, merging) are
  recursive functions. The goroutines of each stage are a step function on an explicit
  state: every goroutine has a program counter, the scheduler's choices are a list of
  events, and a run is the fold of the step function over such a list. A step that the
  Go runtime would block (a full semaphore, a full channel, an unfinished wait group)
  is not enabled and yields \<open>None\<close>.
\<close>

subsection \<open>Errors\<close>

text \<open>
  \<open>ErrContext\<close> is \<^verbatim>\<open>ctx.Err()\<close> of a context that is done, \<open>ErrExternal\<close> an
  error of an external collaborator (image construction, storage backend), and
  \<open>ErrWrap msg e\<close> is \<^verbatim>\<open>fmt.Errorf("msg: %w", e)\<close>.
\<close>

datatype error = ErrContext | ErrExternal string | ErrWrap string error

subsection \<open>The Image object\<close>

text \<open>
  Modelled from the spec: the \<^verbatim>\<open>Image\<close> type and its methods \<^verbatim>\<open>Equivalent\<close>,
  \<^verbatim>\<open>IsUploadNeeded\<close>, \<^verbatim>\<open>StartUpload\<close> and \<^verbatim>\<open>SetUploadResult\<close> are
  declared in a file of the repository that is not part of the sources at hand. The spec
  (section 3) gives the fields, the upload state machine
  \<open>NotNeeded\<close> (terminal); \<open>Needed \<rightarrow> Uploading \<rightarrow> {Uploaded, Failed}\<close> (terminal),
  and equivalence as a comparison of content. The field \<open>link\<close> is the spec's
  externalLink under the name \<^verbatim>\<open>preload.go\<close> assigns to (line 107).

  Go handles images through pointers (\<^verbatim>\<open>*Image\<close>). A pointer is an address
  \<open>ref\<close>, and the objects live in a store \<open>ref \<Rightarrow> Image\<close>; a pointer that may be nil
  is a \<open>ref option\<close>.
\<close>

datatype uploadState = NotNeeded | Needed | Uploading | Uploaded | Failed

record Image =
  bytes :: "8 word list"
  mimeType :: string
  sourceLink :: string
  link :: string
  uploadState :: uploadState
  uploadedURL :: string
  uploadError :: "error option"

type_synonym ref = nat

type_synonym store = "ref \<Rightarrow> Image"

definition Equivalent :: "Image \<Rightarrow> Image \<Rightarrow> bool" where
  "Equivalent a b \<longleftrightarrow> bytes a = bytes b"

definition IsUploadNeeded :: "Image \<Rightarrow> bool" where
  "IsUploadNeeded i \<longleftrightarrow> uploadState i = Needed"

definition StartUpload :: "Image \<Rightarrow> Image" where
  "StartUpload i = (if uploadState i = Needed then i\<lparr>uploadState := Uploading\<rparr> else i)"

definition SetUploadResult :: "string \<Rightarrow> error option \<Rightarrow> Image \<Rightarrow> Image" where
  "SetUploadResult u err i =
     (if uploadState i = Uploading then
        (case err of
           None \<Rightarrow> i\<lparr>uploadState := Uploaded, uploadedURL := u\<rparr>
         | Some e \<Rightarrow> i\<lparr>uploadState := Failed, uploadError := Some e\<rparr>)
      else i)"

subsection \<open>Slide actions and the presentation\<close>

text \<open>
  Modelled from the spec: the \<^verbatim>\<open>action\<close> and \<^verbatim>\<open>Slide\<close> types are declared
  outside the sources at hand; the spec gives a Slide Action as
  \<open>{index, kind: {update, append, ...}, slide: optional SlideContent}\<close>. Kinds other than
  update and append are one constructor: the code treats them alike (it skips them).
\<close>

datatype actionType = actionTypeAppend | actionTypeUpdate | actionTypeOther

record Slide =
  Images :: "ref list"

record action =
  actionType :: actionType
  index :: int
  slide :: "Slide option"

text \<open>
  The types of \<^verbatim>\<open>google.golang.org/api/slides/v1\<close> that \<^verbatim>\<open>preloadCurrentImages\<close>
  reads, with the fields it reads.
\<close>

record Link =
  Url :: string

record ImageProperties =
  Link :: "Link option"

record Placeholder =
  ParentObjectId :: string

record slidesImage =
  ContentUrl :: string
  Placeholder :: "Placeholder option"
  ImageProperties :: "ImageProperties option"

record PageElement =
  ObjectId :: string
  Description :: string
  Image :: "slidesImage option"

record Page =
  PageElements :: "PageElement list"

record Presentation =
  Slides :: "Page list"

subsection \<open>Types of preload.go\<close>

definition maxPreloadWorkersNum :: nat where
  "maxPreloadWorkersNum = 4"

record currentImageData =
  currentImages :: "ref option list"
  currentImageObjectIDMap :: "ref \<rightharpoonup> string"

record imageToPreload =
  slideIndex :: int
  imageIndex :: nat
  existingURL :: string
  objectID :: string
  isFromMarkdown :: bool
  externalLink :: string

record imageResult =
  res_slideIndex :: int
  res_imageIndex :: nat
  res_image :: "ref option"
  res_objectID :: string

record uploadedImageInfo =
  resourceID :: string
  info_image :: ref

type_synonym snapshot = "int \<rightharpoonup> currentImageData"

text \<open>
  The scheduler's choices. \<open>Coord\<close>: the coordinating goroutine takes its next step;
  \<open>Work i\<close>: worker \<open>i\<close> takes its next step; \<open>Abort i\<close>: worker \<open>i\<close>'s
  \<^verbatim>\<open>sem.Acquire(ctx, 1)\<close> returns the context's error (enabled once the context is done);
  \<open>Cancel\<close>: the caller's context is cancelled; \<open>Recv\<close>: the consumer receives one
  event from the completion channel.
\<close>

datatype event = Coord | Work nat | Abort nat | Cancel | Recv

subsection \<open>preloadCurrentImages: collecting the images to preload (lines 46-75)\<close>

definition externalLinkOf :: "slidesImage \<Rightarrow> string" where
  "externalLinkOf img =
     (case ImageProperties img of
        None \<Rightarrow> []
      | Some props \<Rightarrow> (case Link props of None \<Rightarrow> [] | Some l \<Rightarrow> Url l))"

text \<open>
  The inner loop over \<^verbatim>\<open>currentSlide.PageElements\<close>; \<open>k\<close> is
  \<^verbatim>\<open>imageIndexInSlide\<close>. \<open>descr\<close> is the constant
  \<^verbatim>\<open>descriptionImageFromMarkdown\<close>, declared outside the sources at hand.
\<close>

fun scanElements :: "string \<Rightarrow> int \<Rightarrow> nat \<Rightarrow> PageElement list \<Rightarrow> imageToPreload list" where
  "scanElements descr idx k [] = []"
| "scanElements descr idx k (element # rest) =
     (case Image element of
        None \<Rightarrow> scanElements descr idx k rest
      | Some img \<Rightarrow>
          if Placeholder img = None \<and> ContentUrl img \<noteq> [] then
            \<lparr>slideIndex = idx, imageIndex = k, existingURL = ContentUrl img,
             objectID = ObjectId element,
             isFromMarkdown = (Description element = descr),
             externalLink = externalLinkOf img\<rparr> # scanElements descr idx (Suc k) rest
          else scanElements descr idx k rest)"

text \<open>
  The outer loop. \<^verbatim>\<open>d.presentation.Slides[action.index]\<close> panics on a negative
  index (the guard only checks the upper bound): \<open>None\<close> is that panic.
\<close>

fun collectImagesToPreload ::
  "string \<Rightarrow> Presentation \<Rightarrow> action list \<Rightarrow> imageToPreload list option" where
  "collectImagesToPreload descr pres [] = Some []"
| "collectImagesToPreload descr pres (a # rest) =
     (if actionType a = actionTypeUpdate \<and> index a < int (length (Slides pres)) then
        (if index a < 0 then None
         else
           (case collectImagesToPreload descr pres rest of
              None \<Rightarrow> None
            | Some others \<Rightarrow>
                Some (scanElements descr (index a) 0
                        (PageElements (Slides pres ! nat (index a))) @ others)))
      else collectImagesToPreload descr pres rest)"

subsection \<open>preloadCurrentImages: merging the results (lines 124-146)\<close>

text \<open>
  One iteration of the loop over \<^verbatim>\<open>resultCh\<close>: create the slide's entry if it
  is missing, resize \<^verbatim>\<open>currentImages\<close> if needed (lines 135-140: a new slice of
  \<^verbatim>\<open>imageIndex + 1\<close> nil entries, the old entries copied into it), store the image at
  its index and its object id under the image.
\<close>

definition resizeImages :: "ref option list \<Rightarrow> nat \<Rightarrow> ref option list" where
  "resizeImages imgs idx =
     (if length imgs \<le> idx then imgs @ replicate (idx + 1 - length imgs) None else imgs)"

definition mergeResult :: "imageResult \<Rightarrow> snapshot \<Rightarrow> snapshot" where
  "mergeResult res result =
     (case res_image res of
        None \<Rightarrow> result
      | Some img \<Rightarrow>
          let d0 = (case result (res_slideIndex res) of
                      None \<Rightarrow> \<lparr>currentImages = [], currentImageObjectIDMap = Map.empty\<rparr>
                    | Some d \<Rightarrow> d)
          in result(res_slideIndex res \<mapsto>
               \<lparr>currentImages =
                  (resizeImages (currentImages d0) (res_imageIndex res))
                    [res_imageIndex res := Some img],
                currentImageObjectIDMap =
                  (currentImageObjectIDMap d0)(img \<mapsto> res_objectID res)\<rparr>))"

fun mergeResults :: "imageResult list \<Rightarrow> snapshot \<Rightarrow> snapshot" where
  "mergeResults [] result = result"
| "mergeResults (res # rest) result = mergeResults rest (mergeResult res result)"

subsection \<open>preloadCurrentImages: the worker pool (lines 83-122)\<close>

text \<open>
  Modelled from the spec: the constructors \<^verbatim>\<open>NewImage\<close> and
  \<^verbatim>\<open>NewImageFromMarkdown\<close> are declared outside the sources at hand; the spec gives
  them as construction of an image from a source reference, in two variants, that can
  fail. Their first argument here is the number of the calling task: two calls with one
  URL need not give one outcome (they fetch over the network).
\<close>

record imageSource =
  NewImage :: "nat \<Rightarrow> string \<Rightarrow> error + Image"
  NewImageFromMarkdown :: "nat \<Rightarrow> string \<Rightarrow> error + Image"

text \<open>
  The program counter of one worker closure (lines 88-116):
  \<open>P_Idle\<close> not yet started by \<^verbatim>\<open>eg.Go\<close>; \<open>P_Acquire\<close> at \<^verbatim>\<open>sem.Acquire\<close>;
  \<open>P_Fetch\<close> holding a permit, before the constructor call; \<open>P_Send r\<close> holding a
  permit, image \<open>r\<close> made, before the send on \<^verbatim>\<open>resultCh\<close>; \<open>P_Release e\<close> at the
  deferred \<^verbatim>\<open>sem.Release\<close>, about to return \<open>e\<close>; \<open>P_Return e\<close> returned \<open>e\<close>
  to the errgroup, which has not yet recorded it; \<open>P_Done\<close> finished.
\<close>

datatype ppc = P_Idle | P_Acquire | P_Fetch | P_Send ref
  | P_Release "error option" | P_Return "error option" | P_Done

text \<open>
  The program counter of \<^verbatim>\<open>preloadCurrentImages\<close> itself: \<open>PC_Spawn k\<close> in the loop
  of line 87, about to start worker \<open>k\<close>; \<open>PC_Wait\<close> at \<^verbatim>\<open>eg.Wait()\<close>;
  \<open>PC_Returned (result, err)\<close> returned that pair (\<open>None\<close> is nil);
  \<open>PC_Panicked\<close> stopped by a runtime panic.
\<close>

datatype pcoord = PC_Spawn nat | PC_Wait
  | PC_Returned "snapshot option \<times> error option" | PC_Panicked

record pstate =
  p_tasks :: "imageToPreload list"
  p_store :: store
  p_next :: ref
  p_ws :: "ppc list"
  p_coord :: pcoord
  p_sem :: nat
  p_cancelled :: bool
  p_egErr :: "error option"
  p_resultCh :: "imageResult list"

text \<open>
  The number of workers between a successful \<^verbatim>\<open>sem.Acquire\<close> and their
  \<^verbatim>\<open>sem.Release\<close>.
\<close>

definition p_holding :: "ppc \<Rightarrow> bool" where
  "p_holding w = (case w of P_Fetch \<Rightarrow> True | P_Send r \<Rightarrow> True | P_Release e \<Rightarrow> True | _ \<Rightarrow> False)"

definition p_inflight :: "pstate \<Rightarrow> nat" where
  "p_inflight s = length (filter p_holding (p_ws s))"

text \<open>
  The state in which the worker pool starts, or the immediate return of line 78 when
  there is nothing to preload. \<open>nxt\<close> is the first address at which a new image will be
  allocated.
\<close>

definition preload_init ::
  "string \<Rightarrow> Presentation \<Rightarrow> action list \<Rightarrow> store \<Rightarrow> ref \<Rightarrow> pstate" where
  "preload_init descr pres actions h nxt =
     (let blank = \<lparr>p_tasks = [], p_store = h, p_next = nxt, p_ws = [], p_coord = PC_Panicked,
                   p_sem = 0, p_cancelled = False, p_egErr = None, p_resultCh = []\<rparr>
      in case collectImagesToPreload descr pres actions of
           None \<Rightarrow> blank
         | Some imagesToPreload \<Rightarrow>
             if length imagesToPreload = 0
             then blank\<lparr>p_coord := PC_Returned (Some Map.empty, None)\<rparr>
             else blank\<lparr>p_tasks := imagesToPreload,
                        p_ws := replicate (length imagesToPreload) P_Idle,
                        p_coord := PC_Spawn 0\<rparr>)"

definition p_set_w :: "nat \<Rightarrow> ppc \<Rightarrow> pstate \<Rightarrow> pstate" where
  "p_set_w i w s = s\<lparr>p_ws := (p_ws s)[i := w]\<rparr>"

text \<open>The constructor call of lines 99-103 of task \<open>i\<close>.\<close>

definition fetchImage :: "imageSource \<Rightarrow> nat \<Rightarrow> imageToPreload \<Rightarrow> error + Image" where
  "fetchImage src i t =
     (if isFromMarkdown t then NewImageFromMarkdown src i (existingURL t)
      else NewImage src i (existingURL t))"

definition resultOf :: "imageToPreload \<Rightarrow> ref \<Rightarrow> imageResult" where
  "resultOf t r = \<lparr>res_slideIndex = slideIndex t, res_imageIndex = imageIndex t,
                   res_image = Some r, res_objectID = objectID t\<rparr>"

text \<open>
  One step of worker \<open>i\<close>. \<^verbatim>\<open>sem.Acquire\<close> succeeds only below the limit; the send
  needs room in the buffer of \<^verbatim>\<open>resultCh\<close> (capacity \<^verbatim>\<open>len(imagesToPreload)\<close>);
  the errgroup records the first error only and cancels the context with it.
\<close>

definition p_work :: "imageSource \<Rightarrow> nat \<Rightarrow> pstate \<Rightarrow> pstate option" where
  "p_work src i s =
     (if i < length (p_ws s) then
        (case p_ws s ! i of
           P_Idle \<Rightarrow> None
         | P_Acquire \<Rightarrow>
             if p_sem s < maxPreloadWorkersNum
             then Some (p_set_w i P_Fetch (s\<lparr>p_sem := p_sem s + 1\<rparr>))
             else None
         | P_Fetch \<Rightarrow>
             (case fetchImage src i (p_tasks s ! i) of
                Inl e \<Rightarrow>
                  Some (p_set_w i (P_Release (Some (ErrWrap
                    (''failed to preload image from URL '' @ existingURL (p_tasks s ! i)) e))) s)
              | Inr img \<Rightarrow>
                  Some (p_set_w i (P_Send (p_next s))
                    (s\<lparr>p_store := (p_store s)(p_next s := img\<lparr>link := externalLink (p_tasks s ! i)\<rparr>),
                       p_next := Suc (p_next s)\<rparr>)))
         | P_Send r \<Rightarrow>
             if length (p_resultCh s) < length (p_tasks s)
             then Some (p_set_w i (P_Release None)
                    (s\<lparr>p_resultCh := p_resultCh s @ [resultOf (p_tasks s ! i) r]\<rparr>))
             else None
         | P_Release e \<Rightarrow> Some (p_set_w i (P_Return e) (s\<lparr>p_sem := p_sem s - 1\<rparr>))
         | P_Return None \<Rightarrow> Some (p_set_w i P_Done s)
         | P_Return (Some e) \<Rightarrow>
             Some (p_set_w i P_Done
               (if p_egErr s = None then s\<lparr>p_egErr := Some e, p_cancelled := True\<rparr> else s))
         | P_Done \<Rightarrow> None)
      else None)"

text \<open>
  One step of the function's own goroutine: start the next worker; or, once every worker
  has finished, leave \<^verbatim>\<open>eg.Wait()\<close> and return (lines 119-149).
\<close>

definition p_coord_step :: "pstate \<Rightarrow> pstate option" where
  "p_coord_step s =
     (case p_coord s of
        PC_Spawn k \<Rightarrow>
          Some (p_set_w k P_Acquire
            (s\<lparr>p_coord := (if Suc k < length (p_tasks s) then PC_Spawn (Suc k) else PC_Wait)\<rparr>))
      | PC_Wait \<Rightarrow>
          if list_all (\<lambda>w. w = P_Done) (p_ws s) then
            Some (s\<lparr>p_cancelled := True,
                    p_coord := PC_Returned
                      (case p_egErr s of
                         Some e \<Rightarrow> (None, Some (ErrWrap ''failed to preload images'' e))
                       | None \<Rightarrow> (Some (mergeResults (p_resultCh s) Map.empty), None))\<rparr>)
          else None
      | PC_Returned r \<Rightarrow> None
      | PC_Panicked \<Rightarrow> None)"

definition pstep :: "imageSource \<Rightarrow> event \<Rightarrow> pstate \<Rightarrow> pstate option" where
  "pstep src e s =
     (case e of
        Coord \<Rightarrow> p_coord_step s
      | Work i \<Rightarrow> p_work src i s
      | Abort i \<Rightarrow>
          if i < length (p_ws s) \<and> p_ws s ! i = P_Acquire \<and> p_cancelled s
          then Some (p_set_w i (P_Return (Some ErrContext)) s)
          else None
      | Cancel \<Rightarrow> Some (s\<lparr>p_cancelled := True\<rparr>)
      | Recv \<Rightarrow> None)"

fun prun :: "imageSource \<Rightarrow> event list \<Rightarrow> pstate \<Rightarrow> pstate option" where
  "prun src [] s = Some s"
| "prun src (e # es) s = (case pstep src e s of None \<Rightarrow> None | Some s' \<Rightarrow> prun src es s')"

definition p_retval :: "pstate \<Rightarrow> snapshot option \<times> error option" where
  "p_retval s =
     (case p_egErr s of
        Some e \<Rightarrow> (None, Some (ErrWrap ''failed to preload images'' e))
      | None \<Rightarrow> (Some (mergeResults (p_resultCh s) Map.empty), None))"

definition p_shape_ok :: "pstate \<Rightarrow> bool" where
  "p_shape_ok s \<longleftrightarrow>
     length (p_ws s) = length (p_tasks s) \<and>
     (case p_coord s of
        PC_Spawn k \<Rightarrow> k < length (p_tasks s) \<and> (\<forall>i<length (p_ws s). k \<le> i \<longrightarrow> p_ws s ! i = P_Idle)
      | PC_Wait \<Rightarrow> True
      | PC_Returned r \<Rightarrow> list_all (\<lambda>w. w = P_Done) (p_ws s) \<and> r = p_retval s
      | PC_Panicked \<Rightarrow> p_ws s = [])"

definition p_sem_ok :: "pstate \<Rightarrow> bool" where
  "p_sem_ok s \<longleftrightarrow> p_sem s = p_inflight s \<and> p_sem s \<le> maxPreloadWorkersNum"

definition slotOf :: "imageToPreload \<Rightarrow> int \<times> nat" where
  "slotOf t = (slideIndex t, imageIndex t)"

definition res_slot :: "imageResult \<Rightarrow> int \<times> nat" where
  "res_slot res = (res_slideIndex res, res_imageIndex res)"

definition p_good :: "imageSource \<Rightarrow> pstate \<Rightarrow> nat \<Rightarrow> ref \<Rightarrow> bool" where
  "p_good src s i r \<longleftrightarrow>
     r < p_next s \<and>
     (\<exists>img. fetchImage src i (p_tasks s ! i) = Inr img \<and>
            p_store s r = img\<lparr>link := externalLink (p_tasks s ! i)\<rparr>)"

definition p_in_ch :: "imageSource \<Rightarrow> pstate \<Rightarrow> nat \<Rightarrow> bool" where
  "p_in_ch src s i \<longleftrightarrow> (\<exists>r. resultOf (p_tasks s ! i) r \<in> set (p_resultCh s) \<and> p_good src s i r)"

definition p_wok :: "imageSource \<Rightarrow> pstate \<Rightarrow> nat \<Rightarrow> ppc \<Rightarrow> bool" where
  "p_wok src s i w =
     (case w of
        P_Send r \<Rightarrow> p_good src s i r
      | P_Release None \<Rightarrow> p_in_ch src s i
      | P_Return None \<Rightarrow> p_in_ch src s i
      | P_Done \<Rightarrow> p_egErr s \<noteq> None \<or> p_in_ch src s i
      | _ \<Rightarrow> True)"

definition p_after_send :: "ppc \<Rightarrow> bool" where
  "p_after_send w = (case w of P_Release None \<Rightarrow> True | P_Return None \<Rightarrow> True | P_Done \<Rightarrow> True | _ \<Rightarrow> False)"

definition p_workers_ok :: "imageSource \<Rightarrow> pstate \<Rightarrow> bool" where
  "p_workers_ok src s \<longleftrightarrow> (\<forall>i<length (p_ws s). p_wok src s i (p_ws s ! i))"

definition p_ch_ok :: "imageSource \<Rightarrow> pstate \<Rightarrow> bool" where
  "p_ch_ok src s \<longleftrightarrow>
     (\<forall>res\<in>set (p_resultCh s). \<exists>i<length (p_ws s). \<exists>r.
         res = resultOf (p_tasks s ! i) r \<and> p_good src s i r \<and> p_after_send (p_ws s ! i))"

definition p_ext :: "pstate \<Rightarrow> pstate \<Rightarrow> bool" where
  "p_ext s s' \<longleftrightarrow>
     p_tasks s' = p_tasks s \<and> p_next s \<le> p_next s' \<and>
     (\<forall>r<p_next s. p_store s' r = p_store s r) \<and>
     set (p_resultCh s) \<subseteq> set (p_resultCh s') \<and>
     (p_egErr s \<noteq> None \<longrightarrow> p_egErr s' \<noteq> None)"

definition p_slots_ok :: "pstate \<Rightarrow> bool" where
  "p_slots_ok s \<longleftrightarrow> distinct (map res_slot (p_resultCh s))"

text \<open>All invariants together, along a run.\<close>

definition p_inv :: "imageSource \<Rightarrow> pstate \<Rightarrow> bool" where
  "p_inv src s \<longleftrightarrow> p_shape_ok s \<and> p_sem_ok s \<and> p_workers_ok src s \<and> p_ch_ok src s \<and>
     (distinct (map slotOf (p_tasks s)) \<longrightarrow> p_slots_ok s)"

text \<open>A concrete deck: slide 0 holds two images, slide 1 a placeholder and one image.\<close>

definition ex_element :: "string \<Rightarrow> string \<Rightarrow> PageElement" where
  "ex_element oid u =
     \<lparr>ObjectId = oid, Description = [],
      Image = Some \<lparr>ContentUrl = u, Placeholder = None, ImageProperties = None\<rparr>\<rparr>"

definition ex_pres :: Presentation where
  "ex_pres = \<lparr>Slides =
     [\<lparr>PageElements = [ex_element ''a'' ''u0'', ex_element ''b'' ''u1'']\<rparr>,
      \<lparr>PageElements = [\<lparr>ObjectId = ''t'', Description = [], Image = None\<rparr>,
                        ex_element ''c'' ''u2'']\<rparr>]\<rparr>"

definition ex_image :: "8 word list \<Rightarrow> uploadState \<Rightarrow> Image" where
  "ex_image b st = \<lparr>bytes = b, mimeType = ''image/png'', sourceLink = [], link = [],
                    uploadState = st, uploadedURL = [], uploadError = None\<rparr>"

definition ex_update :: "int \<Rightarrow> ref list \<Rightarrow> action" where
  "ex_update i imgs = \<lparr>actionType = actionTypeUpdate, index = i, slide = Some \<lparr>Images = imgs\<rparr>\<rparr>"

definition ex_append :: "int \<Rightarrow> ref list \<Rightarrow> action" where
  "ex_append i imgs = \<lparr>actionType = actionTypeAppend, index = i, slide = Some \<lparr>Images = imgs\<rparr>\<rparr>"

text \<open>An image source whose fetch of \<open>u1\<close> fails.\<close>

definition ex_src_fail :: imageSource where
  "ex_src_fail = \<lparr>NewImage = (\<lambda>i u. if u = ''u1'' then Inl (ErrExternal ''404'')
                                   else Inr (ex_image [1] NotNeeded)),
                  NewImageFromMarkdown = (\<lambda>i u. Inl (ErrExternal ''unused''))\<rparr>"

definition ex_store :: store where
  "ex_store = (\<lambda>r. ex_image [] NotNeeded)"

text \<open>
  The slots of a snapshot (slide index and position within the slide's sequence), and
  the image a snapshot holds at a slot (\<open>None\<close>: no such slot, or a nil entry there).
\<close>

definition snapshotSlots :: "snapshot \<Rightarrow> (int \<times> nat) set" where
  "snapshotSlots m = {(sl, p). \<exists>d. m sl = Some d \<and> p < length (currentImages d)}"

definition imageAt :: "snapshot \<Rightarrow> int \<times> nat \<Rightarrow> ref option" where
  "imageAt m slot =
     (case m (fst slot) of
        None \<Rightarrow> None
      | Some d \<Rightarrow> if snd slot < length (currentImages d) then currentImages d ! snd slot else None)"

text \<open>An image source that always succeeds; the content it returns names the calling task.\<close>

definition ex_src_ok :: imageSource where
  "ex_src_ok = \<lparr>NewImage = (\<lambda>i u. Inr (ex_image [of_nat i] NotNeeded)),
                NewImageFromMarkdown = (\<lambda>i u. Inr (ex_image [of_nat i] NotNeeded))\<rparr>"

text \<open>The events that take a started worker from its acquire to its end.\<close>

definition ex_whole :: "nat \<Rightarrow> event list" where
  "ex_whole i = [Work i, Work i, Work i, Work i, Work i]"

subsection \<open>startUploadingImages: selecting the images to upload (lines 157-178)\<close>

text \<open>
  Lines 167-172: is the image equivalent to an image of the slide's preloaded snapshot?
  A nil entry of \<^verbatim>\<open>currentImages\<close> is equivalent to nothing.
\<close>

definition foundInCurrent :: "store \<Rightarrow> snapshot \<Rightarrow> int \<Rightarrow> ref \<Rightarrow> bool" where
  "foundInCurrent h cur idx img =
     (case cur idx of
        None \<Rightarrow> False
      | Some currentImagesForSlide \<Rightarrow>
          list_ex (\<lambda>currentImage. case currentImage of
                                    None \<Rightarrow> False
                                  | Some c \<Rightarrow> Equivalent (h c) (h img))
            (currentImages currentImagesForSlide))"

text \<open>
  The inner loop over \<^verbatim>\<open>action.slide.Images\<close>. \<open>acc\<close> is \<^verbatim>\<open>imagesToUpload\<close>, a
  slice of pointers: \<^verbatim>\<open>slices.Contains\<close> compares its elements with \<^verbatim>\<open>==\<close>, which on
  pointers is identity of the objects.
\<close>

fun selectImages :: "store \<Rightarrow> snapshot \<Rightarrow> int \<Rightarrow> ref list \<Rightarrow> ref list \<Rightarrow> ref list" where
  "selectImages h cur idx [] acc = acc"
| "selectImages h cur idx (img # imgs) acc =
     selectImages h cur idx imgs
       (if \<not> foundInCurrent h cur idx img \<and> IsUploadNeeded (h img) \<and> img \<notin> set acc
        then acc @ [img] else acc)"

fun collectImagesToUpload :: "store \<Rightarrow> snapshot \<Rightarrow> action list \<Rightarrow> ref list \<Rightarrow> ref list" where
  "collectImagesToUpload h cur [] acc = acc"
| "collectImagesToUpload h cur (a # rest) acc =
     collectImagesToUpload h cur rest
       (if actionType a = actionTypeUpdate \<or> actionType a = actionTypeAppend then
          (case slide a of
             None \<Rightarrow> acc
           | Some sl \<Rightarrow> selectImages h cur (index a) (Images sl) acc)
        else acc)"

subsection \<open>startUploadingImages: the upload workers (lines 180-233)\<close>

text \<open>
  The \<^verbatim>\<open>ImageUploader\<close> interface (uploader_gdrive.go, lines 107-115). The first argument
  of each operation is the number of the calling task: the outcome of a call is not a
  function of its data alone. It also stands for the file name of line 209, which is
  read from the clock. \<open>Upload\<close> returns the public URL and the resource id.
\<close>

record ImageUploader =
  Upload :: "nat \<Rightarrow> 8 word list \<Rightarrow> string \<Rightarrow> error + (string \<times> string)"
  Delete :: "nat \<Rightarrow> string \<Rightarrow> error option"

text \<open>
  The program counter of one upload closure (lines 200-221): \<open>U_Idle\<close> not yet started;
  \<open>U_Acquire\<close> at \<^verbatim>\<open>sem.Acquire\<close>; \<open>U_Upload\<close> holding a permit, before the call of
  \<^verbatim>\<open>Upload\<close>; \<open>U_Send rid\<close> holding a permit, upload recorded on the image, before the
  send of the completion event; \<open>U_Release e\<close> at the deferred \<^verbatim>\<open>sem.Release\<close>, about to
  return \<open>e\<close>; \<open>U_Return e\<close> returned \<open>e\<close> to the errgroup, which has not yet recorded
  it; \<open>U_Done e\<close> finished, having returned \<open>e\<close>.
\<close>

datatype upc = U_Idle | U_Acquire | U_Upload | U_Send string
  | U_Release "error option" | U_Return "error option" | U_Done "error option"

text \<open>
  The program counter of the background goroutine of line 194: \<open>UC_None\<close> there is no
  such goroutine (the early return of line 184); \<open>UC_Spawn k\<close> about to start worker
  \<open>k\<close>; \<open>UC_Wait\<close> at \<^verbatim>\<open>eg.Wait()\<close>; \<open>UC_Close\<close> about to close the channel;
  \<open>UC_Done\<close> finished.
\<close>

datatype ucoord = UC_None | UC_Spawn nat | UC_Wait | UC_Close | UC_Done

text \<open>
  \<open>u_ch\<close> is the buffer of \<^verbatim>\<open>uploadedCh\<close> and \<open>u_cap\<close> its capacity. Two fields
  record history and are read by no step: \<open>u_sent\<close>, every event ever sent on the
  channel, and \<open>u_calls\<close>, the image of every call of the backend's \<^verbatim>\<open>Upload\<close>.
\<close>

record ustate =
  u_sel :: "ref list"
  u_store :: store
  u_ws :: "upc list"
  u_coord :: ucoord
  u_sem :: nat
  u_cancelled :: bool
  u_egErr :: "error option"
  u_ch :: "uploadedImageInfo list"
  u_cap :: nat
  u_closed :: bool
  u_sent :: "uploadedImageInfo list"
  u_calls :: "ref list"

text \<open>Lines 188-191: mark every selected image as upload in progress.\<close>

fun markUploading :: "ref list \<Rightarrow> store \<Rightarrow> store" where
  "markUploading [] h = h"
| "markUploading (img # imgs) h = markUploading imgs (h(img := StartUpload (h img)))"

text \<open>
  The synchronous part of \<^verbatim>\<open>startUploadingImages\<close>: the state in which it returns the
  channel to its caller. With nothing selected the channel is closed and no goroutine
  exists; otherwise the background goroutine exists and has not taken a step.
\<close>

definition startUploadingImages :: "store \<Rightarrow> action list \<Rightarrow> snapshot \<Rightarrow> ustate" where
  "startUploadingImages h actions cur =
     (let imagesToUpload = collectImagesToUpload h cur actions [];
          uploadedCh = \<lparr>u_sel = imagesToUpload, u_store = h, u_ws = [], u_coord = UC_None,
                        u_sem = 0, u_cancelled = False, u_egErr = None, u_ch = [],
                        u_cap = length imagesToUpload, u_closed = False, u_sent = [],
                        u_calls = []\<rparr>
      in if length imagesToUpload = 0 then uploadedCh\<lparr>u_closed := True\<rparr>
         else uploadedCh\<lparr>u_store := markUploading imagesToUpload h,
                          u_ws := replicate (length imagesToUpload) U_Idle,
                          u_coord := UC_Spawn 0\<rparr>)"

definition u_holding :: "upc \<Rightarrow> bool" where
  "u_holding w = (case w of U_Upload \<Rightarrow> True | U_Send rid \<Rightarrow> True | U_Release e \<Rightarrow> True | _ \<Rightarrow> False)"

definition u_inflight :: "ustate \<Rightarrow> nat" where
  "u_inflight s = length (filter u_holding (u_ws s))"

definition u_set_w :: "nat \<Rightarrow> upc \<Rightarrow> ustate \<Rightarrow> ustate" where
  "u_set_w i w s = s\<lparr>u_ws := (u_ws s)[i := w]\<rparr>"

text \<open>\<^verbatim>\<open>image.SetUploadResult(url, err)\<close> on the image of worker \<open>i\<close>.\<close>

definition u_set_result :: "nat \<Rightarrow> string \<Rightarrow> error option \<Rightarrow> ustate \<Rightarrow> ustate" where
  "u_set_result i url err s =
     s\<lparr>u_store := (u_store s)(u_sel s ! i := SetUploadResult url err (u_store s (u_sel s ! i)))\<rparr>"

text \<open>The call of line 210 by worker \<open>i\<close>.\<close>

definition u_outcome :: "ImageUploader \<Rightarrow> ustate \<Rightarrow> nat \<Rightarrow> error + (string \<times> string)" where
  "u_outcome up s i =
     Upload up i (bytes (u_store s (u_sel s ! i))) (mimeType (u_store s (u_sel s ! i)))"

text \<open>
  One step of upload worker \<open>i\<close>. A failed upload returns the backend's error itself
  (line 213) and stores the wrapped one on the image (line 212).
\<close>

definition u_work :: "ImageUploader \<Rightarrow> nat \<Rightarrow> ustate \<Rightarrow> ustate option" where
  "u_work up i s =
     (if i < length (u_ws s) then
        (case u_ws s ! i of
           U_Idle \<Rightarrow> None
         | U_Acquire \<Rightarrow>
             if u_sem s < maxPreloadWorkersNum
             then Some (u_set_w i U_Upload (s\<lparr>u_sem := u_sem s + 1\<rparr>))
             else None
         | U_Upload \<Rightarrow>
             (case u_outcome up s i of
                Inl e \<Rightarrow>
                  Some (u_set_w i (U_Release (Some e))
                    (u_set_result i [] (Some (ErrWrap ''failed to upload image'' e))
                      (s\<lparr>u_calls := u_calls s @ [u_sel s ! i]\<rparr>)))
              | Inr (publicURL, rid) \<Rightarrow>
                  Some (u_set_w i (U_Send rid)
                    (u_set_result i publicURL None
                      (s\<lparr>u_calls := u_calls s @ [u_sel s ! i]\<rparr>))))
         | U_Send rid \<Rightarrow>
             if length (u_ch s) < u_cap s
             then Some (u_set_w i (U_Release None)
                    (s\<lparr>u_ch := u_ch s @ [\<lparr>resourceID = rid, info_image = u_sel s ! i\<rparr>],
                       u_sent := u_sent s @ [\<lparr>resourceID = rid, info_image = u_sel s ! i\<rparr>]\<rparr>))
             else None
         | U_Release e \<Rightarrow> Some (u_set_w i (U_Return e) (s\<lparr>u_sem := u_sem s - 1\<rparr>))
         | U_Return None \<Rightarrow> Some (u_set_w i (U_Done None) s)
         | U_Return (Some e) \<Rightarrow>
             Some (u_set_w i (U_Done (Some e))
               (if u_egErr s = None then s\<lparr>u_egErr := Some e, u_cancelled := True\<rparr> else s))
         | U_Done e \<Rightarrow> None)
      else None)"

text \<open>
  \<^verbatim>\<open>sem.Acquire\<close> of worker \<open>i\<close> fails because the context is done (lines 201-205): the
  context's error is stored on the image and returned.
\<close>

definition u_abort :: "nat \<Rightarrow> ustate \<Rightarrow> ustate option" where
  "u_abort i s =
     (if i < length (u_ws s) \<and> u_ws s ! i = U_Acquire \<and> u_cancelled s
      then Some (u_set_w i (U_Return (Some ErrContext)) (u_set_result i [] (Some ErrContext) s))
      else None)"

text \<open>
  One step of the background goroutine: start the next worker; leave \<^verbatim>\<open>eg.Wait()\<close> once
  every worker has finished (which cancels the group's context); close the channel.
\<close>

definition u_coord_step :: "ustate \<Rightarrow> ustate option" where
  "u_coord_step s =
     (case u_coord s of
        UC_None \<Rightarrow> None
      | UC_Spawn k \<Rightarrow>
          Some (u_set_w k U_Acquire
            (s\<lparr>u_coord := (if Suc k < length (u_sel s) then UC_Spawn (Suc k) else UC_Wait)\<rparr>))
      | UC_Wait \<Rightarrow>
          if list_all (\<lambda>w. case w of U_Done e \<Rightarrow> True | _ \<Rightarrow> False) (u_ws s)
          then Some (s\<lparr>u_cancelled := True, u_coord := UC_Close\<rparr>)
          else None
      | UC_Close \<Rightarrow> Some (s\<lparr>u_closed := True, u_coord := UC_Done\<rparr>)
      | UC_Done \<Rightarrow> None)"

text \<open>
  What a receive on the channel gives its consumer: the oldest buffered event; the
  closed signal when the buffer is empty and the channel closed; or it blocks.
\<close>

datatype recv = Received uploadedImageInfo | ChanClosed | WouldBlock

definition u_recv :: "ustate \<Rightarrow> recv" where
  "u_recv s =
     (case u_ch s of
        info # rest \<Rightarrow> Received info
      | [] \<Rightarrow> if u_closed s then ChanClosed else WouldBlock)"

definition ustep :: "ImageUploader \<Rightarrow> event \<Rightarrow> ustate \<Rightarrow> ustate option" where
  "ustep up e s =
     (case e of
        Coord \<Rightarrow> u_coord_step s
      | Work i \<Rightarrow> u_work up i s
      | Abort i \<Rightarrow> u_abort i s
      | Cancel \<Rightarrow> Some (s\<lparr>u_cancelled := True\<rparr>)
      | Recv \<Rightarrow> (case u_ch s of [] \<Rightarrow> None | info # rest \<Rightarrow> Some (s\<lparr>u_ch := rest\<rparr>)))"

fun urun :: "ImageUploader \<Rightarrow> event list \<Rightarrow> ustate \<Rightarrow> ustate option" where
  "urun up [] s = Some s"
| "urun up (e # es) s = (case ustep up e s of None \<Rightarrow> None | Some s' \<Rightarrow> urun up es s')"

text \<open>The steps of the goroutines that \<^verbatim>\<open>startUploadingImages\<close> starts.\<close>

definition is_producer :: "event \<Rightarrow> bool" where
  "is_producer e = (case e of Coord \<Rightarrow> True | Work i \<Rightarrow> True | Abort i \<Rightarrow> True | _ \<Rightarrow> False)"

section \<open>Proofs\<close>

lemma length_filter_list_update:
  "i < length xs \<Longrightarrow>
     length (filter P (xs[i := y])) + (if P (xs ! i) then 1 else 0) =
     length (filter P xs) + (if P y then 1 else 0)"
proof (induction xs arbitrary: i)
  case Nil
  then show ?case by simp
next
  case (Cons x xs)
  then show ?case by (cases i) auto
qed

lemma p_shape_init: "p_shape_ok (preload_init descr pres actions h nxt)"
  by (simp add: p_shape_ok_def preload_init_def p_retval_def Let_def split: option.splits)

lemma p_sem_init: "p_sem_ok (preload_init descr pres actions h nxt)"
  by (auto simp: p_sem_ok_def preload_init_def p_inflight_def p_holding_def Let_def split: option.splits)


lemma p_work_cases [consumes 1, case_names Acquire FetchFail FetchOk Send Release ReturnOk ReturnErr]:
  assumes "p_work src i s = Some s'"
  obtains
    (Acquire) "i < length (p_ws s)" "p_ws s ! i = P_Acquire" "p_sem s < maxPreloadWorkersNum"
      "s' = p_set_w i P_Fetch (s\<lparr>p_sem := p_sem s + 1\<rparr>)"
  | (FetchFail) e where "i < length (p_ws s)" "p_ws s ! i = P_Fetch"
      "fetchImage src i (p_tasks s ! i) = Inl e"
      "s' = p_set_w i (P_Release (Some (ErrWrap
                    (''failed to preload image from URL '' @ existingURL (p_tasks s ! i)) e))) s"
  | (FetchOk) img where "i < length (p_ws s)" "p_ws s ! i = P_Fetch"
      "fetchImage src i (p_tasks s ! i) = Inr img"
      "s' = p_set_w i (P_Send (p_next s))
                    (s\<lparr>p_store := (p_store s)(p_next s := img\<lparr>link := externalLink (p_tasks s ! i)\<rparr>),
                       p_next := Suc (p_next s)\<rparr>)"
  | (Send) r where "i < length (p_ws s)" "p_ws s ! i = P_Send r"
      "length (p_resultCh s) < length (p_tasks s)"
      "s' = p_set_w i (P_Release None)
                    (s\<lparr>p_resultCh := p_resultCh s @ [resultOf (p_tasks s ! i) r]\<rparr>)"
  | (Release) e where "i < length (p_ws s)" "p_ws s ! i = P_Release e"
      "s' = p_set_w i (P_Return e) (s\<lparr>p_sem := p_sem s - 1\<rparr>)"
  | (ReturnOk) "i < length (p_ws s)" "p_ws s ! i = P_Return None" "s' = p_set_w i P_Done s"
  | (ReturnErr) e where "i < length (p_ws s)" "p_ws s ! i = P_Return (Some e)"
      "s' = p_set_w i P_Done
               (if p_egErr s = None then s\<lparr>p_egErr := Some e, p_cancelled := True\<rparr> else s)"
proof -
  from assms have i: "i < length (p_ws s)"
    by (simp add: p_work_def split: if_splits)
  show thesis
  proof (cases "p_ws s ! i")
    case P_Idle
    with assms i show ?thesis by (simp add: p_work_def)
  next
    case P_Acquire
    with assms i show ?thesis by (intro Acquire) (simp_all add: p_work_def split: if_splits)
  next
    case P_Fetch
    show ?thesis
    proof (cases "fetchImage src i (p_tasks s ! i)")
      case (Inl e)
      with assms i P_Fetch show ?thesis by (intro FetchFail[of e]) (simp_all add: p_work_def)
    next
      case (Inr img)
      with assms i P_Fetch show ?thesis by (intro FetchOk[of img]) (simp_all add: p_work_def)
    qed
  next
    case (P_Send r)
    with assms i show ?thesis by (intro Send[of r]) (simp_all add: p_work_def split: if_splits)
  next
    case (P_Release e)
    with assms i show ?thesis by (intro Release[of e]) (simp_all add: p_work_def)
  next
    case (P_Return eo)
    show ?thesis
    proof (cases eo)
      case None
      with assms i P_Return show ?thesis by (intro ReturnOk) (simp_all add: p_work_def)
    next
      case (Some e)
      with assms i P_Return show ?thesis by (intro ReturnErr[of e]) (simp_all add: p_work_def)
    qed
  next
    case P_Done
    with assms i show ?thesis by (simp add: p_work_def)
  qed
qed

lemma pstep_cases [consumes 1, case_names Spawn Wait Work Abort Cancel]:
  assumes "pstep src e s = Some s'"
  obtains
    (Spawn) k where "e = Coord" "p_coord s = PC_Spawn k"
      "s' = p_set_w k P_Acquire
            (s\<lparr>p_coord := (if Suc k < length (p_tasks s) then PC_Spawn (Suc k) else PC_Wait)\<rparr>)"
  | (Wait) "e = Coord" "p_coord s = PC_Wait" "list_all (\<lambda>w. w = P_Done) (p_ws s)"
      "s' = s\<lparr>p_cancelled := True, p_coord := PC_Returned (p_retval s)\<rparr>"
  | (Work) i where "e = Work i" "p_work src i s = Some s'"
  | (Abort) i where "e = Abort i" "i < length (p_ws s)" "p_ws s ! i = P_Acquire" "p_cancelled s"
      "s' = p_set_w i (P_Return (Some ErrContext)) s"
  | (Cancel) "e = Cancel" "s' = s\<lparr>p_cancelled := True\<rparr>"
proof (cases e)
  case Coord
  show ?thesis
  proof (cases "p_coord s")
    case (PC_Spawn k)
    with assms Coord show ?thesis by (intro Spawn[of k]) (simp_all add: pstep_def p_coord_step_def)
  next
    case PC_Wait
    with assms Coord show ?thesis
      by (intro Wait) (simp_all add: pstep_def p_coord_step_def p_retval_def split: if_splits)
  next
    case (PC_Returned r)
    with assms Coord show ?thesis by (simp add: pstep_def p_coord_step_def)
  next
    case PC_Panicked
    with assms Coord show ?thesis by (simp add: pstep_def p_coord_step_def)
  qed
next
  case (Work i)
  with assms show ?thesis by (intro that(3)[of i]) (simp_all add: pstep_def)
next
  case (Abort i)
  with assms show ?thesis by (intro that(4)[of i]) (simp_all add: pstep_def split: if_splits)
next
  case Cancel
  with assms show ?thesis by (intro that(5)) (simp_all add: pstep_def)
next
  case Recv
  with assms show ?thesis by (simp add: pstep_def)
qed


lemma p_set_w_simps [simp]:
  "p_ws (p_set_w i w s) = (p_ws s)[i := w]"
  "p_tasks (p_set_w i w s) = p_tasks s"
  "p_store (p_set_w i w s) = p_store s"
  "p_next (p_set_w i w s) = p_next s"
  "p_coord (p_set_w i w s) = p_coord s"
  "p_sem (p_set_w i w s) = p_sem s"
  "p_cancelled (p_set_w i w s) = p_cancelled s"
  "p_egErr (p_set_w i w s) = p_egErr s"
  "p_resultCh (p_set_w i w s) = p_resultCh s"
  by (simp_all add: p_set_w_def)

lemma p_retval_simps [simp]:
  "p_retval (p_set_w i w s) = p_retval s"
  "p_retval (s\<lparr>p_cancelled := c\<rparr>) = p_retval s"
  "p_retval (s\<lparr>p_coord := pc\<rparr>) = p_retval s"
  by (simp_all add: p_retval_def split: option.splits)

lemma p_work_tasks:
  assumes "p_work src i s = Some s'"
  shows "p_tasks s' = p_tasks s \<and> p_coord s' = p_coord s \<and> length (p_ws s') = length (p_ws s)"
  using assms by (cases rule: p_work_cases) (simp_all split: if_splits)

lemma p_work_not_done:
  assumes "p_work src i s = Some s'"
  shows "i < length (p_ws s) \<and> p_ws s ! i \<noteq> P_Done \<and> p_ws s ! i \<noteq> P_Idle"
  using assms by (cases rule: p_work_cases) simp_all

lemma p_work_other:
  assumes "p_work src i s = Some s'" "j \<noteq> i"
  shows "p_ws s' ! j = p_ws s ! j"
  using assms(1) by (cases rule: p_work_cases) (use assms(2) in \<open>simp_all split: if_splits\<close>)

lemma p_shape_step:
  assumes "p_shape_ok s" "pstep src e s = Some s'"
  shows "p_shape_ok s'"
  using assms(2)
proof (cases rule: pstep_cases)
  case (Spawn k)
  with assms(1) show ?thesis
    by (auto simp: p_shape_ok_def)
next
  case Wait
  with assms(1) show ?thesis by (simp add: p_shape_ok_def)
next
  case (Work i)
  from p_work_tasks[OF Work(2)] p_work_not_done[OF Work(2)] p_work_other[OF Work(2)] assms(1)
  show ?thesis
    apply (cases "p_coord s")
    apply (auto simp: p_shape_ok_def list_all_length)
    by (metis leD leI)
next
  case (Abort i)
  with assms(1) show ?thesis
    by (cases "p_coord s") (auto simp: p_shape_ok_def list_all_length nth_list_update)
next
  case Cancel
  with assms(1) show ?thesis by (cases "p_coord s") (auto simp: p_shape_ok_def)
qed

lemma p_inflight_set_w:
  assumes "s' = p_set_w i w s0" "p_ws s0 = p_ws s" "i < length (p_ws s)"
  shows "p_inflight s' + (if p_holding (p_ws s ! i) then 1 else 0) =
         p_inflight s + (if p_holding w then 1 else 0)"
  using assms length_filter_list_update[of i "p_ws s" p_holding w]
  by (simp add: p_inflight_def)

lemma p_sem_work:
  assumes "p_sem_ok s" "p_work src i s = Some s'"
  shows "p_sem_ok s'"
  using assms(2)
proof (cases rule: p_work_cases)
  case Acquire
  have "p_sem s' = p_sem s + 1" using Acquire by simp
  moreover have "p_inflight s' = p_inflight s + 1"
    using p_inflight_set_w[OF Acquire(4) _ Acquire(1)] Acquire(2) by (simp add: p_holding_def)
  ultimately show ?thesis using assms(1) Acquire(3) by (simp add: p_sem_ok_def)
next
  case (FetchFail e)
  have "p_sem s' = p_sem s" using FetchFail by simp
  moreover have "p_inflight s' = p_inflight s"
    using p_inflight_set_w[OF FetchFail(4) _ FetchFail(1)] FetchFail(2) by (simp add: p_holding_def)
  ultimately show ?thesis using assms(1) by (simp add: p_sem_ok_def)
next
  case (FetchOk img)
  have "p_sem s' = p_sem s" using FetchOk by simp
  moreover have "p_inflight s' = p_inflight s"
    using p_inflight_set_w[OF FetchOk(4) _ FetchOk(1)] FetchOk(2) by (simp add: p_holding_def)
  ultimately show ?thesis using assms(1) by (simp add: p_sem_ok_def)
next
  case (Send r)
  have "p_sem s' = p_sem s" using Send by simp
  moreover have "p_inflight s' = p_inflight s"
    using p_inflight_set_w[OF Send(4) _ Send(1)] Send(2) by (simp add: p_holding_def)
  ultimately show ?thesis using assms(1) by (simp add: p_sem_ok_def)
next
  case (Release e)
  have "p_sem s' = p_sem s - 1" using Release by simp
  moreover have "p_inflight s' + 1 = p_inflight s"
    using p_inflight_set_w[OF Release(3) _ Release(1)] Release(2) by (simp add: p_holding_def)
  ultimately show ?thesis using assms(1) unfolding p_sem_ok_def by linarith
next
  case ReturnOk
  have "p_sem s' = p_sem s" using ReturnOk by simp
  moreover have "p_inflight s' = p_inflight s"
    using p_inflight_set_w[OF ReturnOk(3) _ ReturnOk(1)] ReturnOk(2) by (simp add: p_holding_def)
  ultimately show ?thesis using assms(1) by (simp add: p_sem_ok_def)
next
  case (ReturnErr e)
  have "p_sem s' = p_sem s" using ReturnErr by simp
  moreover have "p_inflight s' = p_inflight s"
    using p_inflight_set_w[OF ReturnErr(3) _ ReturnErr(1)] ReturnErr(2) by (simp add: p_holding_def)
  ultimately show ?thesis using assms(1) by (simp add: p_sem_ok_def)
qed

lemma p_sem_step:
  assumes "p_sem_ok s" "p_shape_ok s" "pstep src e s = Some s'"
  shows "p_sem_ok s'"
  using assms(3)
proof (cases rule: pstep_cases)
  case (Spawn k)
  with assms(2) have k: "k < length (p_ws s)" "p_ws s ! k = P_Idle"
    by (auto simp: p_shape_ok_def)
  have "p_sem s' = p_sem s" using Spawn by simp
  moreover have "p_inflight s' = p_inflight s"
    using p_inflight_set_w[OF Spawn(3) _ k(1)] k(2) by (simp add: p_holding_def)
  ultimately show ?thesis using assms(1) by (simp add: p_sem_ok_def)
next
  case Wait
  with assms(1) show ?thesis by (simp add: p_sem_ok_def p_inflight_def)
next
  case (Work i)
  with assms(1) show ?thesis by (simp add: p_sem_work)
next
  case (Abort i)
  have "p_sem s' = p_sem s" using Abort by simp
  moreover have "p_inflight s' = p_inflight s"
    using p_inflight_set_w[OF Abort(5) _ Abort(2)] Abort(3) by (simp add: p_holding_def)
  ultimately show ?thesis using assms(1) by (simp add: p_sem_ok_def)
next
  case Cancel
  with assms(1) show ?thesis by (simp add: p_sem_ok_def p_inflight_def)
qed

lemma res_slot_resultOf [simp]: "res_slot (resultOf t r) = slotOf t"
  by (simp add: res_slot_def resultOf_def slotOf_def)

lemma res_image_resultOf [simp]: "res_image (resultOf t r) = Some r"
  by (simp add: resultOf_def)

lemma p_good_ext: "p_ext s s' \<Longrightarrow> p_good src s i r \<Longrightarrow> p_good src s' i r"
  by (auto simp: p_ext_def p_good_def)

lemma p_in_ch_ext:
  assumes "p_ext s s'" "p_in_ch src s i"
  shows "p_in_ch src s' i"
proof -
  from assms(2) obtain r where r: "resultOf (p_tasks s ! i) r \<in> set (p_resultCh s)" "p_good src s i r"
    by (auto simp: p_in_ch_def)
  from assms(1) r(1) have "resultOf (p_tasks s' ! i) r \<in> set (p_resultCh s')"
    by (auto simp: p_ext_def)
  with p_good_ext[OF assms(1) r(2)] show ?thesis by (auto simp: p_in_ch_def)
qed

lemma p_wok_ext: "p_ext s s' \<Longrightarrow> p_wok src s i w \<Longrightarrow> p_wok src s' i w"
  unfolding p_wok_def using p_good_ext[of s s' src i] p_in_ch_ext[of s s' src i]
  by (auto simp: p_ext_def split: ppc.splits option.splits)

lemma p_work_ext:
  assumes "p_work src i s = Some s'"
  shows "p_ext s s'"
  using assms by (cases rule: p_work_cases) (auto simp: p_ext_def)

lemma pstep_ext:
  assumes "pstep src e s = Some s'"
  shows "p_ext s s'"
  using assms by (cases rule: pstep_cases) (auto simp: p_ext_def p_work_ext[unfolded p_ext_def])

text \<open>The worker that moves keeps its own invariant.\<close>

lemma p_work_self:
  assumes "p_work src i s = Some s'" "p_wok src s i (p_ws s ! i)"
  shows "p_wok src s' i (p_ws s' ! i)"
  using assms(1)
proof (cases rule: p_work_cases)
  case Acquire
  then show ?thesis by (simp add: p_wok_def)
next
  case (FetchFail e)
  then show ?thesis by (simp add: p_wok_def)
next
  case (FetchOk img)
  then show ?thesis by (simp add: p_wok_def p_good_def)
next
  case (Send r)
  with assms(2) have "p_good src s i r" by (simp add: p_wok_def)
  with p_good_ext[OF p_work_ext[OF assms(1)] this] Send show ?thesis
    by (auto simp: p_wok_def p_in_ch_def)
next
  case (Release e)
  with assms(2) p_in_ch_ext[OF p_work_ext[OF assms(1)], of src i] show ?thesis
    by (cases e) (simp_all add: p_wok_def)
next
  case ReturnOk
  with assms(2) p_in_ch_ext[OF p_work_ext[OF assms(1)], of src i] show ?thesis
    by (simp add: p_wok_def)
next
  case (ReturnErr e)
  then show ?thesis by (simp add: p_wok_def)
qed

lemma p_work_length:
  assumes "p_work src i s = Some s'"
  shows "length (p_ws s') = length (p_ws s)" "i < length (p_ws s)"
  using assms by (cases rule: p_work_cases; simp split: if_splits)+

lemma p_workers_step:
  assumes "p_workers_ok src s" "pstep src e s = Some s'"
  shows "p_workers_ok src s'"
  using assms(2)
proof (cases rule: pstep_cases)
  case (Spawn k)
  have ext: "p_ext s s'" by (rule pstep_ext[OF assms(2)])
  show ?thesis unfolding p_workers_ok_def
  proof (intro allI impI)
    fix i assume "i < length (p_ws s')"
    with Spawn have i: "i < length (p_ws s)" by simp
    show "p_wok src s' i (p_ws s' ! i)"
    proof (cases "i = k")
      case True
      with Spawn i show ?thesis by (simp add: p_wok_def)
    next
      case False
      with Spawn i have "p_ws s' ! i = p_ws s ! i" by simp
      with assms(1) i p_wok_ext[OF ext] show ?thesis by (simp add: p_workers_ok_def)
    qed
  qed
next
  case Wait
  have ext: "p_ext s s'" by (rule pstep_ext[OF assms(2)])
  with assms(1) Wait p_wok_ext[OF ext] show ?thesis by (simp add: p_workers_ok_def)
next
  case (Work j)
  have ext: "p_ext s s'" by (rule pstep_ext[OF assms(2)])
  show ?thesis unfolding p_workers_ok_def
  proof (intro allI impI)
    fix i assume "i < length (p_ws s')"
    with p_work_length[OF Work(2)] have i: "i < length (p_ws s)" by simp
    show "p_wok src s' i (p_ws s' ! i)"
    proof (cases "i = j")
      case True
      with assms(1) i p_work_self[OF Work(2)] show ?thesis by (simp add: p_workers_ok_def)
    next
      case False
      with p_work_other[OF Work(2)] have "p_ws s' ! i = p_ws s ! i" by simp
      with assms(1) i p_wok_ext[OF ext] show ?thesis by (simp add: p_workers_ok_def)
    qed
  qed
next
  case (Abort j)
  have ext: "p_ext s s'" by (rule pstep_ext[OF assms(2)])
  show ?thesis unfolding p_workers_ok_def
  proof (intro allI impI)
    fix i assume "i < length (p_ws s')"
    with Abort have i: "i < length (p_ws s)" by simp
    show "p_wok src s' i (p_ws s' ! i)"
    proof (cases "i = j")
      case True
      with Abort i show ?thesis by (simp add: p_wok_def)
    next
      case False
      with Abort i have "p_ws s' ! i = p_ws s ! i" by simp
      with assms(1) i p_wok_ext[OF ext] show ?thesis by (simp add: p_workers_ok_def)
    qed
  qed
next
  case Cancel
  have ext: "p_ext s s'" by (rule pstep_ext[OF assms(2)])
  with assms(1) Cancel p_wok_ext[OF ext] show ?thesis by (simp add: p_workers_ok_def)
qed

lemma pstep_length:
  assumes "pstep src e s = Some s'"
  shows "length (p_ws s') = length (p_ws s)" "p_tasks s' = p_tasks s"
  using assms by (cases rule: pstep_cases; simp add: p_work_tasks)+

lemma pstep_ch:
  assumes "pstep src e s = Some s'"
  shows "p_resultCh s' = p_resultCh s \<or>
         (\<exists>j r. j < length (p_ws s) \<and> p_ws s ! j = P_Send r \<and>
                p_resultCh s' = p_resultCh s @ [resultOf (p_tasks s ! j) r] \<and>
                p_ws s' ! j = P_Release None)"
  using assms
proof (cases rule: pstep_cases)
  case (Work i)
  from Work(2) show ?thesis by (cases rule: p_work_cases) (auto split: if_splits)
qed simp_all

lemma pstep_after_send:
  assumes "p_shape_ok s" "pstep src e s = Some s'" "i < length (p_ws s)"
    "p_after_send (p_ws s ! i)"
  shows "p_after_send (p_ws s' ! i)"
  using assms(2)
proof (cases rule: pstep_cases)
  case (Spawn k)
  with assms(1) have "k < length (p_ws s)" "p_ws s ! k = P_Idle"
    by (auto simp: p_shape_ok_def)
  with assms(4) have "i \<noteq> k" by (auto simp: p_after_send_def)
  with Spawn assms(4) show ?thesis by simp
next
  case Wait
  with assms(4) show ?thesis by simp
next
  case (Work j)
  show ?thesis
  proof (cases "i = j")
    case True
    from Work(2) assms(4) show ?thesis unfolding True
      by (cases rule: p_work_cases) (simp_all add: p_after_send_def)
  next
    case False
    with p_work_other[OF Work(2)] assms(4) show ?thesis by simp
  qed
next
  case (Abort j)
  with assms(4) have "i \<noteq> j" by (auto simp: p_after_send_def)
  with Abort assms(4) show ?thesis by simp
next
  case Cancel
  with assms(4) show ?thesis by simp
qed

lemma p_ch_step:
  assumes "p_ch_ok src s" "p_workers_ok src s" "p_shape_ok s" "pstep src e s = Some s'"
  shows "p_ch_ok src s'"
  unfolding p_ch_ok_def
proof
  fix res assume res: "res \<in> set (p_resultCh s')"
  have ext: "p_ext s s'" by (rule pstep_ext[OF assms(4)])
  note len = pstep_length[OF assms(4)]
  from pstep_ch[OF assms(4)] res
  consider (old) "res \<in> set (p_resultCh s)"
    | (new) j r where "j < length (p_ws s)" "p_ws s ! j = P_Send r"
        "res = resultOf (p_tasks s ! j) r" "p_ws s' ! j = P_Release None"
    by auto
  then show "\<exists>i<length (p_ws s'). \<exists>r. res = resultOf (p_tasks s' ! i) r \<and>
               p_good src s' i r \<and> p_after_send (p_ws s' ! i)"
  proof cases
    case old
    with assms(1) obtain i r where i: "i < length (p_ws s)" "res = resultOf (p_tasks s ! i) r"
      "p_good src s i r" "p_after_send (p_ws s ! i)"
      by (auto simp: p_ch_ok_def)
    from p_good_ext[OF ext i(3)] pstep_after_send[OF assms(3,4) i(1,4)] i(1,2) len
    show ?thesis by auto
  next
    case new
    with assms(2) have "p_good src s j r" by (auto simp: p_workers_ok_def p_wok_def)
    from p_good_ext[OF ext this] have g: "p_good src s' j r" .
    have a: "p_after_send (p_ws s' ! j)" using new(4) by (simp add: p_after_send_def)
    from g a new len show ?thesis
      by (intro exI[of _ j] conjI exI[of _ r]) simp_all
  qed
qed

lemma p_slots_step:
  assumes "p_slots_ok s" "p_ch_ok src s" "p_shape_ok s" "distinct (map slotOf (p_tasks s))"
    "pstep src e s = Some s'"
  shows "p_slots_ok s'"
proof -
  from pstep_ch[OF assms(5)]
  consider (same) "p_resultCh s' = p_resultCh s"
    | (new) j r where "j < length (p_ws s)" "p_ws s ! j = P_Send r"
        "p_resultCh s' = p_resultCh s @ [resultOf (p_tasks s ! j) r]"
    by auto
  then show ?thesis
  proof cases
    case same
    with assms(1) show ?thesis by (simp add: p_slots_ok_def)
  next
    case new
    from assms(3) have len: "length (p_ws s) = length (p_tasks s)" by (simp add: p_shape_ok_def)
    have "slotOf (p_tasks s ! j) \<notin> res_slot ` set (p_resultCh s)"
    proof
      assume "slotOf (p_tasks s ! j) \<in> res_slot ` set (p_resultCh s)"
      then obtain res where res: "res \<in> set (p_resultCh s)" "res_slot res = slotOf (p_tasks s ! j)"
        by auto
      with assms(2) obtain i r' where i: "i < length (p_ws s)" "res = resultOf (p_tasks s ! i) r'"
        "p_after_send (p_ws s ! i)" by (auto simp: p_ch_ok_def)
      from res(2) i(2) have eq: "map slotOf (p_tasks s) ! i = map slotOf (p_tasks s) ! j"
        using i(1) new(1) len by simp
      have "(map slotOf (p_tasks s) ! i = map slotOf (p_tasks s) ! j) = (i = j)"
        using assms(4) i(1) new(1) len by (intro nth_eq_iff_index_eq) simp_all
      with eq have "i = j" by blast
      with i(3) new(2) show False by (simp add: p_after_send_def)
    qed
    with assms(1) new show ?thesis by (simp add: p_slots_ok_def)
  qed
qed

lemma p_inv_init: "p_inv src (preload_init descr pres actions h nxt)"
  unfolding p_inv_def
proof (intro conjI)
  show "p_workers_ok src (preload_init descr pres actions h nxt)"
    by (simp add: p_workers_ok_def preload_init_def Let_def p_wok_def split: option.splits)
  show "p_ch_ok src (preload_init descr pres actions h nxt)"
    by (simp add: p_ch_ok_def preload_init_def Let_def split: option.splits)
  show "distinct (map slotOf (p_tasks (preload_init descr pres actions h nxt))) \<longrightarrow>
        p_slots_ok (preload_init descr pres actions h nxt)"
    by (simp add: p_slots_ok_def preload_init_def Let_def split: option.splits)
qed (rule p_shape_init p_sem_init)+

lemma p_inv_step:
  assumes "p_inv src s" "pstep src e s = Some s'"
  shows "p_inv src s'"
  using assms p_shape_step[of s src e s'] p_sem_step[of s src e s'] p_workers_step[of src s e s']
    p_ch_step[of src s e s'] p_slots_step[of s src e s'] pstep_length(2)[of src e s s']
  by (auto simp: p_inv_def)

lemma p_inv_run:
  assumes "p_inv src s" "prun src es s = Some s'"
  shows "p_inv src s'"
  using assms
proof (induction es arbitrary: s)
  case Nil
  then show ?case by simp
next
  case (Cons e es)
  then show ?case by (auto split: option.splits dest: p_inv_step)
qed

lemma prun_tasks:
  assumes "prun src es s = Some s'"
  shows "p_tasks s' = p_tasks s"
  using assms
proof (induction es arbitrary: s)
  case Nil
  then show ?case by simp
next
  case (Cons e es)
  then show ?case by (auto split: option.splits dest: pstep_length(2))
qed

lemma preload_init_tasks:
  "collectImagesToPreload descr pres actions = Some ts \<Longrightarrow>
   p_tasks (preload_init descr pres actions h nxt) = ts"
  by (simp add: preload_init_def Let_def)

text \<open>What a returned pair says about the workers.\<close>

lemma p_returned_ok:
  assumes "p_inv src s" "p_coord s = PC_Returned (Some m, None)"
  shows "m = mergeResults (p_resultCh s) Map.empty"
    and "\<forall>i<length (p_tasks s). p_in_ch src s i"
proof -
  from assms have all: "list_all (\<lambda>w. w = P_Done) (p_ws s)" and r: "(Some m, None) = p_retval s"
    and len: "length (p_ws s) = length (p_tasks s)"
    by (auto simp: p_inv_def p_shape_ok_def)
  from r have e: "p_egErr s = None" and m: "m = mergeResults (p_resultCh s) Map.empty"
    by (auto simp: p_retval_def split: option.splits)
  show "m = mergeResults (p_resultCh s) Map.empty" by (rule m)
  show "\<forall>i<length (p_tasks s). p_in_ch src s i"
  proof (intro allI impI)
    fix i assume i: "i < length (p_tasks s)"
    with all len have "p_ws s ! i = P_Done" by (simp add: list_all_length)
    moreover from assms(1) i len have "p_wok src s i (p_ws s ! i)"
      by (simp add: p_inv_def p_workers_ok_def)
    ultimately show "p_in_ch src s i" using e by (simp add: p_wok_def)
  qed
qed

lemma p_returned_cases:
  assumes "p_inv src s" "p_coord s = PC_Returned r"
  shows "(\<exists>m. r = (Some m, None)) \<or> (\<exists>e. r = (None, Some (ErrWrap ''failed to preload images'' e)))"
  using assms by (auto simp: p_inv_def p_shape_ok_def p_retval_def split: option.splits)

lemmas p_eval = pstep_def p_coord_step_def p_work_def p_set_w_def preload_init_def
  fetchImage_def resultOf_def maxPreloadWorkersNum_def externalLinkOf_def
  ex_element_def ex_pres_def ex_image_def ex_update_def ex_src_fail_def ex_store_def

text \<open>
  Claim C2. Whenever the fetch of one of the images to preload fails, a call of
  \<^verbatim>\<open>preloadCurrentImages\<close> that returns, under any schedule of its workers, returns
  the pair of a nil map and an error: no snapshot, not even a partial one, reaches the
  caller.
\<close>

theorem preload_all_or_nothing:
  assumes "collectImagesToPreload descr pres actions = Some ts"
    and "i < length ts" and "fetchImage src i (ts ! i) = Inl e"
    and "prun src es (preload_init descr pres actions h nxt) = Some s"
    and "p_coord s = PC_Returned r"
  shows "\<exists>err. r = (None, Some (ErrWrap ''failed to preload images'' err))"
proof -
  have inv: "p_inv src s"
    by (rule p_inv_run[OF p_inv_init assms(4)])
  have ts: "p_tasks s = ts"
    using prun_tasks[OF assms(4)] preload_init_tasks[OF assms(1)] by simp
  from p_returned_cases[OF inv assms(5)] show ?thesis
  proof
    assume "\<exists>m. r = (Some m, None)"
    then obtain m where "p_coord s = PC_Returned (Some m, None)" using assms(5) by auto
    from p_returned_ok(2)[OF inv this] assms(2) ts have "p_in_ch src s i" by simp
    with ts assms(3) show ?thesis by (auto simp: p_in_ch_def p_good_def)
  qed
qed

text \<open>
  A run of the claim's situation: two images on slide 0, the fetch of the second fails
  while the first succeeds, and the call returns the wrapped error with no map.
\<close>

theorem preload_all_or_nothing_witness:
  "\<exists>s err. prun ex_src_fail
       [Coord, Coord, Work 0, Work 1, Work 1, Work 1, Work 1, Work 0, Work 0, Work 0, Work 0, Coord]
       (preload_init ''md'' ex_pres [ex_update 0 []] ex_store 0) = Some s \<and>
     p_coord s = PC_Returned (None, Some (ErrWrap ''failed to preload images'' err))"
proof -
  have c: "collectImagesToPreload ''md'' ex_pres [ex_update 0 []] =
     Some [\<lparr>slideIndex = 0, imageIndex = 0, existingURL = ''u0'', objectID = ''a'',
            isFromMarkdown = False, externalLink = []\<rparr>,
           \<lparr>slideIndex = 0, imageIndex = 1, existingURL = ''u1'', objectID = ''b'',
            isFromMarkdown = False, externalLink = []\<rparr>]" (is "_ = Some ?ts")
    by (simp add: ex_pres_def ex_update_def ex_element_def externalLinkOf_def)
  have f: "fetchImage ex_src_fail 1 (?ts ! 1) = Inl (ErrExternal ''404'')"
    by (simp add: fetchImage_def ex_src_fail_def)
  have "\<exists>s r. prun ex_src_fail
       [Coord, Coord, Work 0, Work 1, Work 1, Work 1, Work 1, Work 0, Work 0, Work 0, Work 0, Coord]
       (preload_init ''md'' ex_pres [ex_update 0 []] ex_store 0) = Some s \<and>
       p_coord s = PC_Returned r"
    by (simp add: p_eval)
  then obtain s r where run: "prun ex_src_fail
       [Coord, Coord, Work 0, Work 1, Work 1, Work 1, Work 1, Work 0, Work 0, Work 0, Work 0, Coord]
       (preload_init ''md'' ex_pres [ex_update 0 []] ex_store 0) = Some s"
    and r: "p_coord s = PC_Returned r" by blast
  from preload_all_or_nothing[OF c _ f run r] r run show ?thesis by auto
qed

lemma mergeResults_snoc: "mergeResults (ch @ [x]) m = mergeResult x (mergeResults ch m)"
  by (induction ch arbitrary: m) simp_all

lemma length_resizeImages: "length (resizeImages imgs idx) = max (length imgs) (Suc idx)"
  by (simp add: resizeImages_def)

lemma nth_resizeImages:
  "p < length (resizeImages imgs idx) \<Longrightarrow>
   resizeImages imgs idx ! p = (if p < length imgs then imgs ! p else None)"
  by (simp add: resizeImages_def nth_append split: if_splits)

lemma imageAt_mergeResult:
  assumes "res_image x = Some r"
  shows "imageAt (mergeResult x m) slot = (if slot = res_slot x then Some r else imageAt m slot)"
proof (cases "fst slot = res_slideIndex x")
  case False
  with assms show ?thesis
    by (auto simp: imageAt_def mergeResult_def Let_def res_slot_def)
next
  case True
  obtain sl p where slot: "slot = (sl, p)" by (cases slot)
  with True have sl: "sl = res_slideIndex x" by simp
  define d0 where "d0 = (case m (res_slideIndex x) of
                      None \<Rightarrow> \<lparr>currentImages = [], currentImageObjectIDMap = Map.empty\<rparr>
                    | Some d \<Rightarrow> d)"
  let ?imgs = "(resizeImages (currentImages d0) (res_imageIndex x))[res_imageIndex x := Some r]"
  have new: "imageAt (mergeResult x m) slot = (if p < length ?imgs then ?imgs ! p else None)"
    using assms sl slot by (simp add: imageAt_def mergeResult_def Let_def d0_def)
  have old: "imageAt m slot = (if p < length (currentImages d0) then currentImages d0 ! p else None)"
    using sl slot by (simp add: imageAt_def d0_def split: option.splits)
  show ?thesis
  proof (cases "p = res_imageIndex x")
    case True
    with new slot sl show ?thesis by (simp add: length_resizeImages res_slot_def)
  next
    case False
    with new old slot sl show ?thesis
      by (auto simp: length_resizeImages nth_resizeImages res_slot_def)
  qed
qed

lemma snapshotSlots_mergeResult:
  assumes "res_image x = Some r"
  shows "snapshotSlots (mergeResult x m) =
         snapshotSlots m \<union> {(res_slideIndex x, p) | p. p \<le> res_imageIndex x}"
proof -
  define d0 where "d0 = (case m (res_slideIndex x) of
                      None \<Rightarrow> \<lparr>currentImages = [], currentImageObjectIDMap = Map.empty\<rparr>
                    | Some d \<Rightarrow> d)"
  have old: "(res_slideIndex x, p) \<in> snapshotSlots m \<longleftrightarrow> p < length (currentImages d0)" for p
    by (simp add: snapshotSlots_def d0_def split: option.splits)
  have new: "(res_slideIndex x, p) \<in> snapshotSlots (mergeResult x m) \<longleftrightarrow>
             p < max (length (currentImages d0)) (Suc (res_imageIndex x))" for p
    using assms by (simp add: snapshotSlots_def mergeResult_def Let_def d0_def length_resizeImages)
  have other: "sl \<noteq> res_slideIndex x \<Longrightarrow>
               (sl, p) \<in> snapshotSlots (mergeResult x m) \<longleftrightarrow> (sl, p) \<in> snapshotSlots m" for sl p
    using assms by (simp add: snapshotSlots_def mergeResult_def Let_def)
  show ?thesis
  proof (rule set_eqI)
    fix z :: "int \<times> nat"
    obtain sl p where z: "z = (sl, p)" by (cases z)
    show "z \<in> snapshotSlots (mergeResult x m) \<longleftrightarrow>
          z \<in> snapshotSlots m \<union> {(res_slideIndex x, p) | p. p \<le> res_imageIndex x}"
    proof (cases "sl = res_slideIndex x")
      case True
      with z old[of p] new[of p] show ?thesis by auto
    next
      case False
      with z other[of sl p] show ?thesis by auto
    qed
  qed
qed

lemma imageAt_empty [simp]: "imageAt Map.empty slot = None"
  by (simp add: imageAt_def)

lemma snapshotSlots_empty [simp]: "snapshotSlots Map.empty = {}"
  by (simp add: snapshotSlots_def)

lemma imageAt_mergeResults_in:
  assumes "distinct (map res_slot ch)" "\<forall>res\<in>set ch. res_image res \<noteq> None" "res \<in> set ch"
  shows "imageAt (mergeResults ch Map.empty) (res_slot res) = res_image res"
  using assms
proof (induction ch rule: rev_induct)
  case Nil
  then show ?case by simp
next
  case (snoc x ch)
  from snoc.prems(2) obtain r where r: "res_image x = Some r" by auto
  show ?case
  proof (cases "res = x")
    case True
    with r show ?thesis by (simp add: mergeResults_snoc imageAt_mergeResult)
  next
    case False
    with snoc.prems(3) have in_ch: "res \<in> set ch" by simp
    from snoc.prems(1) have "res_slot x \<notin> res_slot ` set ch" by simp
    with in_ch have ne: "res_slot res \<noteq> res_slot x" by (metis imageI)
    from snoc.IH in_ch snoc.prems(1,2)
    have "imageAt (mergeResults ch Map.empty) (res_slot res) = res_image res"
      by simp
    with ne r show ?thesis by (simp add: mergeResults_snoc imageAt_mergeResult)
  qed
qed

lemma snapshotSlots_mergeResults:
  assumes "\<forall>res\<in>set ch. res_image res \<noteq> None" "(sl, p) \<in> snapshotSlots (mergeResults ch Map.empty)"
  shows "\<exists>res\<in>set ch. res_slideIndex res = sl \<and> p \<le> res_imageIndex res"
  using assms
proof (induction ch rule: rev_induct)
  case Nil
  then show ?case by simp
next
  case (snoc x ch)
  from snoc.prems(1) obtain r where r: "res_image x = Some r" by auto
  from snoc.prems(2) r
  have "(sl, p) \<in> snapshotSlots (mergeResults ch Map.empty) \<or>
        (sl = res_slideIndex x \<and> p \<le> res_imageIndex x)"
    by (auto simp: mergeResults_snoc snapshotSlots_mergeResult)
  then show ?case
  proof
    assume "(sl, p) \<in> snapshotSlots (mergeResults ch Map.empty)"
    with snoc.IH snoc.prems(1) show ?thesis by auto
  next
    assume "sl = res_slideIndex x \<and> p \<le> res_imageIndex x"
    then show ?thesis by auto
  qed
qed

lemma imageAt_in_slots: "imageAt m slot = Some r \<Longrightarrow> slot \<in> snapshotSlots m"
  by (cases slot) (auto simp: imageAt_def snapshotSlots_def split: option.splits if_splits)

text \<open>What the collecting loops produce.\<close>

lemma scanElements_slide: "t \<in> set (scanElements descr idx k es) \<Longrightarrow> slideIndex t = idx"
  by (induction es arbitrary: k) (auto split: option.splits if_splits)

lemma scanElements_index:
  "map imageIndex (scanElements descr idx k es) = [k ..< k + length (scanElements descr idx k es)]"
proof (induction es arbitrary: k)
  case Nil
  then show ?case by simp
next
  case (Cons e es)
  show ?case
  proof (cases "Image e")
    case None
    with Cons show ?thesis by simp
  next
    case (Some img)
    show ?thesis
    proof (cases "Placeholder img = None \<and> ContentUrl img \<noteq> []")
      case True
      let ?n = "length (scanElements descr idx (Suc k) es)"
      have "[k ..< k + Suc ?n] = k # [Suc k ..< k + Suc ?n]"
        by (rule upt_conv_Cons) simp
      with True Some Cons[of "Suc k"] show ?thesis by simp
    next
      case False
      with Some Cons[of k] show ?thesis by auto
    qed
  qed
qed

lemma scanElements_distinct: "distinct (map slotOf (scanElements descr idx k es))"
proof -
  have "distinct (map imageIndex (scanElements descr idx k es))"
    by (simp add: scanElements_index)
  moreover have "map imageIndex (scanElements descr idx k es) =
                 map snd (map slotOf (scanElements descr idx k es))"
    by (simp add: slotOf_def comp_def)
  ultimately show ?thesis by (metis distinct_map)
qed

lemma scanElements_contiguous:
  assumes "t \<in> set (scanElements descr idx 0 es)" "p \<le> imageIndex t"
  shows "\<exists>t'\<in>set (scanElements descr idx 0 es). slotOf t' = (idx, p)"
proof -
  let ?ts = "scanElements descr idx 0 es"
  from assms(1) have "imageIndex t \<in> set (map imageIndex ?ts)" by simp
  then have "imageIndex t < length ?ts" by (simp add: scanElements_index)
  with assms(2) have "p \<in> set (map imageIndex ?ts)" by (simp add: scanElements_index)
  then obtain t' where "t' \<in> set ?ts" "imageIndex t' = p" by auto
  with scanElements_slide[of t' descr idx 0 es] show ?thesis by (auto simp: slotOf_def)
qed

lemma collect_slide:
  assumes "collectImagesToPreload descr pres actions = Some ts" "t \<in> set ts"
  shows "slideIndex t \<in> index ` {a \<in> set actions. actionType a = actionTypeUpdate}"
  using assms
proof (induction actions arbitrary: ts)
  case Nil
  then show ?case by simp
next
  case (Cons a rest)
  show ?case
  proof (cases "actionType a = actionTypeUpdate \<and> index a < int (length (Slides pres))")
    case False
    with Cons.prems have "collectImagesToPreload descr pres rest = Some ts" by auto
    from Cons.IH[OF this Cons.prems(2)] show ?thesis by auto
  next
    case True
    with Cons.prems(1) obtain others where o: "collectImagesToPreload descr pres rest = Some others"
      and ts: "ts = scanElements descr (index a) 0 (PageElements (Slides pres ! nat (index a))) @ others"
      by (auto split: if_splits option.splits)
    from Cons.prems(2) ts consider
      "t \<in> set (scanElements descr (index a) 0 (PageElements (Slides pres ! nat (index a))))"
      | "t \<in> set others" by auto
    then show ?thesis
    proof cases
      case 1
      from scanElements_slide[OF this] True show ?thesis by auto
    next
      case 2
      from Cons.IH[OF o this] show ?thesis by auto
    qed
  qed
qed

lemma collect_distinct:
  assumes "distinct (map index (filter (\<lambda>a. actionType a = actionTypeUpdate) actions))"
    "collectImagesToPreload descr pres actions = Some ts"
  shows "distinct (map slotOf ts)"
  using assms
proof (induction actions arbitrary: ts)
  case Nil
  then show ?case by simp
next
  case (Cons a rest)
  from Cons.prems(1)
  have d: "distinct (map index (filter (\<lambda>a. actionType a = actionTypeUpdate) rest))"
    by (auto split: if_splits)
  show ?case
  proof (cases "actionType a = actionTypeUpdate \<and> index a < int (length (Slides pres))")
    case False
    with Cons.prems have "collectImagesToPreload descr pres rest = Some ts" by auto
    from Cons.IH[OF d this] show ?thesis .
  next
    case True
    let ?sc = "scanElements descr (index a) 0 (PageElements (Slides pres ! nat (index a)))"
    from True Cons.prems(2) obtain others where o: "collectImagesToPreload descr pres rest = Some others"
      and ts: "ts = ?sc @ others"
      by (auto split: if_splits option.splits)
    from True Cons.prems(1)
    have notin: "index a \<notin> index ` {b \<in> set rest. actionType b = actionTypeUpdate}" by auto
    have "set (map slotOf ?sc) \<inter> set (map slotOf others) = {}"
    proof (rule ccontr)
      assume "set (map slotOf ?sc) \<inter> set (map slotOf others) \<noteq> {}"
      then obtain z where "z \<in> slotOf ` set ?sc" "z \<in> slotOf ` set others" by auto
      then obtain t t' where t: "t \<in> set ?sc" "t' \<in> set others" "slotOf t = slotOf t'" by auto
      from scanElements_slide[OF t(1)] t(3) have "slideIndex t' = index a" by (simp add: slotOf_def)
      with collect_slide[OF o t(2)] notin show False by simp
    qed
    with Cons.IH[OF d o] scanElements_distinct[of descr "index a" 0] ts show ?thesis by simp
  qed
qed

lemma collect_contiguous:
  assumes "collectImagesToPreload descr pres actions = Some ts" "t \<in> set ts" "p \<le> imageIndex t"
  shows "\<exists>t'\<in>set ts. slotOf t' = (slideIndex t, p)"
  using assms
proof (induction actions arbitrary: ts)
  case Nil
  then show ?case by simp
next
  case (Cons a rest)
  show ?case
  proof (cases "actionType a = actionTypeUpdate \<and> index a < int (length (Slides pres))")
    case False
    with Cons.prems have "collectImagesToPreload descr pres rest = Some ts" by auto
    from Cons.IH[OF this Cons.prems(2,3)] show ?thesis .
  next
    case True
    let ?sc = "scanElements descr (index a) 0 (PageElements (Slides pres ! nat (index a)))"
    from True Cons.prems(1) obtain others where o: "collectImagesToPreload descr pres rest = Some others"
      and ts: "ts = ?sc @ others"
      by (auto split: if_splits option.splits)
    from Cons.prems(2) ts consider "t \<in> set ?sc" | "t \<in> set others" by auto
    then show ?thesis
    proof cases
      case 1
      from scanElements_contiguous[OF 1 Cons.prems(3)] scanElements_slide[OF 1] ts
      show ?thesis by auto
    next
      case 2
      from Cons.IH[OF o 2 Cons.prems(3)] ts show ?thesis by auto
    qed
  qed
qed

lemma p_ch_images:
  assumes "p_ch_ok src s"
  shows "\<forall>res\<in>set (p_resultCh s). res_image res \<noteq> None"
  using assms by (auto simp: p_ch_ok_def)

text \<open>
  Claim C3, amended. In a batch whose update actions target pairwise different slides,
  with \<open>N\<close> images to preload, a successful \<^verbatim>\<open>preloadCurrentImages\<close> returns, under
  any schedule of its workers, a map whose slots are exactly the \<open>N\<close> recorded
  (slide index, position) pairs; the slot of each task holds the image that task made
  (its content and link in the store), and no slot of the map is nil.
\<close>

theorem preload_snapshot_complete:
  assumes d: "distinct (map index (filter (\<lambda>a. actionType a = actionTypeUpdate) actions))"
    and c: "collectImagesToPreload descr pres actions = Some ts"
    and run: "prun src es (preload_init descr pres actions h nxt) = Some s"
    and ret: "p_coord s = PC_Returned (Some m, None)"
  shows "snapshotSlots m = slotOf ` set ts \<and> card (snapshotSlots m) = length ts \<and>
     (\<forall>i<length ts. \<exists>r img. imageAt m (slotOf (ts ! i)) = Some r \<and>
         fetchImage src i (ts ! i) = Inr img \<and>
         p_store s r = img\<lparr>link := externalLink (ts ! i)\<rparr>) \<and>
     (\<forall>slot\<in>snapshotSlots m. imageAt m slot \<noteq> None)"
proof -
  have inv: "p_inv src s"
    by (rule p_inv_run[OF p_inv_init run])
  have ts: "p_tasks s = ts"
    using prun_tasks[OF run] preload_init_tasks[OF c] by simp
  have dts: "distinct (map slotOf ts)"
    by (rule collect_distinct[OF d c])
  from inv dts ts have slots: "distinct (map res_slot (p_resultCh s))"
    by (simp add: p_inv_def p_slots_ok_def)
  from inv have ch: "p_ch_ok src s" by (simp add: p_inv_def)
  from inv have len: "length (p_ws s) = length ts"
    using ts by (simp add: p_inv_def p_shape_ok_def)
  note some = p_ch_images[OF ch]
  from p_returned_ok[OF inv ret] ts
  have m: "m = mergeResults (p_resultCh s) Map.empty"
    and inch: "\<forall>i<length ts. p_in_ch src s i" by simp_all
  have task: "\<exists>r img. imageAt m (slotOf (ts ! i)) = Some r \<and>
         fetchImage src i (ts ! i) = Inr img \<and>
         p_store s r = img\<lparr>link := externalLink (ts ! i)\<rparr>" if i: "i < length ts" for i
  proof -
    from inch i ts obtain r where r: "resultOf (ts ! i) r \<in> set (p_resultCh s)" "p_good src s i r"
      by (auto simp: p_in_ch_def)
    from imageAt_mergeResults_in[OF slots some r(1)] m
    have "imageAt m (slotOf (ts ! i)) = Some r" by simp
    with r(2) ts show ?thesis by (auto simp: p_good_def)
  qed
  have sub1: "slotOf ` set ts \<subseteq> snapshotSlots m"
  proof
    fix z assume "z \<in> slotOf ` set ts"
    then obtain i where "i < length ts" "z = slotOf (ts ! i)"
      by (auto simp: in_set_conv_nth)
    with task[of i] imageAt_in_slots show "z \<in> snapshotSlots m" by blast
  qed
  have sub2: "snapshotSlots m \<subseteq> slotOf ` set ts"
  proof
    fix z assume z: "z \<in> snapshotSlots m"
    obtain sl p where zp: "z = (sl, p)" by (cases z)
    from snapshotSlots_mergeResults[OF some] z zp m
    obtain res where res: "res \<in> set (p_resultCh s)" "res_slideIndex res = sl" "p \<le> res_imageIndex res"
      by blast
    from ch res(1) len ts obtain i r where i: "i < length ts" "res = resultOf (ts ! i) r"
      by (auto simp: p_ch_ok_def)
    from i(2) res(2,3) have "slideIndex (ts ! i) = sl" "p \<le> imageIndex (ts ! i)"
      by (simp_all add: resultOf_def)
    with collect_contiguous[OF c, of "ts ! i" p] i(1)
    obtain t' where "t' \<in> set ts" "slotOf t' = (sl, p)" by auto
    with zp show "z \<in> slotOf ` set ts" by (metis imageI)
  qed
  from sub1 sub2 have eq: "snapshotSlots m = slotOf ` set ts" by blast
  have "card (slotOf ` set ts) = length ts"
    using distinct_card[OF dts] by simp
  with eq have card: "card (snapshotSlots m) = length ts" by simp
  have nogap: "\<forall>slot\<in>snapshotSlots m. imageAt m slot \<noteq> None"
  proof
    fix z assume "z \<in> snapshotSlots m"
    with eq obtain i where "i < length ts" "z = slotOf (ts ! i)"
      by (auto simp: in_set_conv_nth)
    with task[of i] show "imageAt m z \<noteq> None" by auto
  qed
  from eq card task nogap show ?thesis by blast
qed

lemmas p_eval2 = p_eval ex_src_ok_def ex_whole_def mergeResult_def resizeImages_def Let_def

text \<open>
  Against the claim as stated: two update actions on slide 1 give \<open>N = 2\<close> images to
  preload, both recorded for slot \<open>(1, 0)\<close>; the returned map holds one image, and which
  task's image it is depends on the order in which the workers send.
\<close>

theorem preload_snapshot_counterexample:
  "\<exists>ts sA mA dA sB mB dB rA rB.
     collectImagesToPreload ''md'' ex_pres [ex_update 1 [], ex_update 1 []] = Some ts \<and>
     length ts = 2 \<and>
     prun ex_src_ok ([Coord, Coord] @ ex_whole 0 @ ex_whole 1 @ [Coord])
       (preload_init ''md'' ex_pres [ex_update 1 [], ex_update 1 []] ex_store 0) = Some sA \<and>
     p_coord sA = PC_Returned (Some mA, None) \<and>
     dom mA = {1} \<and> mA 1 = Some dA \<and> currentImages dA = [Some rA] \<and>
     bytes (p_store sA rA) = [1] \<and>
     prun ex_src_ok ([Coord, Coord] @ ex_whole 1 @ ex_whole 0 @ [Coord])
       (preload_init ''md'' ex_pres [ex_update 1 [], ex_update 1 []] ex_store 0) = Some sB \<and>
     p_coord sB = PC_Returned (Some mB, None) \<and>
     dom mB = {1} \<and> mB 1 = Some dB \<and> currentImages dB = [Some rB] \<and>
     bytes (p_store sB rB) = [0]"
  by (simp add: p_eval2)

text \<open>
  A run of the amended claim: updates of slides 0 and 1, three images, the workers
  finishing in the order 2, 0, 1.
\<close>

theorem preload_snapshot_complete_witness:
  "\<exists>s m. prun ex_src_ok ([Coord, Coord, Coord] @ ex_whole 2 @ ex_whole 0 @ ex_whole 1 @ [Coord])
       (preload_init ''md'' ex_pres [ex_update 0 [], ex_update 1 []] ex_store 0) = Some s \<and>
     p_coord s = PC_Returned (Some m, None) \<and>
     snapshotSlots m = {(0, 0), (0, 1), (1, 0)} \<and> card (snapshotSlots m) = 3 \<and>
     imageAt m (0, 0) \<noteq> None \<and> imageAt m (0, 1) \<noteq> None \<and> imageAt m (1, 0) \<noteq> None"
proof -
  let ?acts = "[ex_update 0 [], ex_update 1 []]"
  let ?ts = "[\<lparr>slideIndex = 0, imageIndex = 0, existingURL = ''u0'', objectID = ''a'',
               isFromMarkdown = False, externalLink = []\<rparr>,
              \<lparr>slideIndex = 0, imageIndex = 1, existingURL = ''u1'', objectID = ''b'',
               isFromMarkdown = False, externalLink = []\<rparr>,
              \<lparr>slideIndex = 1, imageIndex = 0, existingURL = ''u2'', objectID = ''c'',
               isFromMarkdown = False, externalLink = []\<rparr>]"
  have d: "distinct (map index (filter (\<lambda>a. actionType a = actionTypeUpdate) ?acts))"
    by (simp add: ex_update_def)
  have c: "collectImagesToPreload ''md'' ex_pres ?acts = Some ?ts"
    by (simp add: ex_pres_def ex_update_def ex_element_def externalLinkOf_def)
  have "\<exists>s m. prun ex_src_ok ([Coord, Coord, Coord] @ ex_whole 2 @ ex_whole 0 @ ex_whole 1 @ [Coord])
       (preload_init ''md'' ex_pres ?acts ex_store 0) = Some s \<and>
       p_coord s = PC_Returned (Some m, None)"
    by (simp add: p_eval2)
  then obtain s m where
    run: "prun ex_src_ok ([Coord, Coord, Coord] @ ex_whole 2 @ ex_whole 0 @ ex_whole 1 @ [Coord])
       (preload_init ''md'' ex_pres ?acts ex_store 0) = Some s"
    and ret: "p_coord s = PC_Returned (Some m, None)" by blast
  from preload_snapshot_complete[OF d c run ret]
  have "snapshotSlots m = {(0, 0), (0, 1), (1, 0)}" "card (snapshotSlots m) = 3"
    and img: "\<forall>slot\<in>snapshotSlots m. imageAt m slot \<noteq> None"
    by (simp_all add: slotOf_def)
  with run ret show ?thesis by auto
qed

end
